theory Spec2Isabelle
  imports
    Complex_Main
    "HOL-Library.AList"
    "HOL-Library.Char_ord"
    "HOL-Library.List_Lexorder"
    "HOL-Library.Multiset"
begin

section \<open>The variant annotation aggregator of generate-overview-table.py\<close>

text \<open>
  The embedding covers lines 171 to 246 of
  \<^verbatim>\<open>workflow/scripts/generate-overview-table.py\<close>: the amino-acid table, the
  two closures \<^verbatim>\<open>insert_entry\<close> and \<^verbatim>\<open>fmt_variants\<close>, the loop over the records of
  one sample and the replacement of over-long entries of the column
  \<^verbatim>\<open>Other Mutations\<close>.

  Modelling decisions.
  \<^item> A Python \<^verbatim>\<open>str\<close> is a \<^typ>\<open>string\<close>, its characters taken from the 8-bit
    range; comparison of strings is the lexicographic order on the character codes,
    as in Python, and the length is the number of characters.
  \<^item> A record of the variant file is the allele frequency
    \<^verbatim>\<open>record.samples[0]["AF"][0]\<close> and the list \<^verbatim>\<open>record.info["ANN"]\<close>; reading the
    file is left to pysam.
  \<^item> The assignment of line 244 is taken as the assignment to the column that it is
    written to be, and is applied to the row of one sample.
  \<^item> An allele frequency is a finite Python float. It is represented by the
    rational number it denotes, so \<^verbatim>\<open><\<close> is the order of the rationals and
    \<^verbatim>\<open>f"{vaf:.3f}"\<close> is correct rounding (ties to even) of that number; neither
    NaN, the infinities nor the sign of a zero are represented.
  \<^item> A \<^verbatim>\<open>dict\<close> that is iterated is an association list in insertion order with
    distinct keys; the two reference mappings, which are only looked up, are maps.
  \<^item> An exception is the left summand of the result.
\<close>

subsection \<open>Python primitives used by the script\<close>

datatype py_error = IndexError | ValueError

text \<open>\<^verbatim>\<open>s.split(sep)\<close> for a separator of one character.\<close>

fun split_str :: "char \<Rightarrow> string \<Rightarrow> string list" where
  "split_str sep [] = [[]]"
| "split_str sep (c # cs) =
     (if c = sep then [] # split_str sep cs
      else (case split_str sep cs of
              [] \<Rightarrow> [[c]]
            | w # ws \<Rightarrow> (c # w) # ws))"

text \<open>\<^verbatim>\<open>s.split(sep, 1)\<close>: at most one split, at the first separator.\<close>

definition split1 :: "char \<Rightarrow> string \<Rightarrow> string list" where
  "split1 sep s =
     (if sep \<in> set s
      then [takeWhile (\<lambda>c. c \<noteq> sep) s, tl (dropWhile (\<lambda>c. c \<noteq> sep) s)]
      else [s])"

text \<open>\<^verbatim>\<open>a, b = xs\<close>: anything but two items raises ValueError.\<close>

fun unpack2 :: "'a list \<Rightarrow> py_error + ('a \<times> 'a)" where
  "unpack2 [a, b] = Inr (a, b)"
| "unpack2 _ = Inl ValueError"

text \<open>\<^verbatim>\<open>xs[i]\<close> for an index that is not negative.\<close>

definition getitem :: "'a list \<Rightarrow> nat \<Rightarrow> py_error + 'a" where
  "getitem xs i = (if i < length xs then Inr (xs ! i) else Inl IndexError)"

text \<open>
  \<^verbatim>\<open>s.replace(old, new)\<close>: every occurrence of \<open>old\<close>, found from the left and
  without overlap, becomes \<open>new\<close>; an empty \<open>old\<close> matches before every character
  and at the end.
\<close>

function replace :: "string \<Rightarrow> string \<Rightarrow> string \<Rightarrow> string" where
  "replace old new s =
     (if old = [] then new @ concat (map (\<lambda>c. c # new) s)
      else if s = [] then []
      else if take (length old) s = old
           then new @ replace old new (drop (length old) s)
           else hd s # replace old new (tl s))"
  by pat_completeness auto
termination
  by (relation "measure (\<lambda>(old, new, s). length s)") auto

declare replace.simps [simp del]

text \<open>\<^verbatim>\<open>sep.join(xs)\<close>.\<close>

fun join :: "string \<Rightarrow> string list \<Rightarrow> string" where
  "join sep [] = []"
| "join sep [x] = x"
| "join sep (x # y # ys) = x @ sep @ join sep (y # ys)"

subsection \<open>Formatting a float with three decimals\<close>

definition round_half_even :: "rat \<Rightarrow> int" where
  "round_half_even q =
     (let f = \<lfloor>q\<rfloor>; r = q - of_int f
      in if r < 1 / 2 then f
         else if 1 / 2 < r then f + 1
         else if even f then f else f + 1)"

definition digit_char :: "nat \<Rightarrow> char" where
  "digit_char d = ''0123456789'' ! (d mod 10)"

function show_nat :: "nat \<Rightarrow> string" where
  "show_nat n = (if n < 10 then [digit_char n] else show_nat (n div 10) @ [digit_char (n mod 10)])"
  by pat_completeness auto
termination
  by (relation "measure id") auto

declare show_nat.simps [simp del]

text \<open>\<^verbatim>\<open>f"{vaf:.3f}"\<close>.\<close>

definition fmt3 :: "rat \<Rightarrow> string" where
  "fmt3 vaf =
     (let n = nat (round_half_even (\<bar>vaf\<bar> * 1000))
      in (if vaf < 0 then ''-'' else '''') @ show_nat (n div 1000) @ ''.'' @
         [digit_char (n div 100), digit_char (n div 10), digit_char n])"

subsection \<open>The amino-acid table and the closures\<close>

definition AA_ALPHABET_TRANSLATION :: "(string \<times> string) list" where
  "AA_ALPHABET_TRANSLATION =
     [(''Gly'', ''G''), (''Ala'', ''A''), (''Leu'', ''L''), (''Met'', ''M''),
      (''Phe'', ''F''), (''Trp'', ''W''), (''Lys'', ''K''), (''Gln'', ''Q''),
      (''Glu'', ''E''), (''Ser'', ''S''), (''Pro'', ''P''), (''Val'', ''V''),
      (''Ile'', ''I''), (''Cys'', ''C''), (''Tyr'', ''Y''), (''His'', ''H''),
      (''Arg'', ''R''), (''Asn'', ''N''), (''Asp'', ''D''), (''Thr'', ''T'')]"

text \<open>
  Lines 227 and 228: one \<^verbatim>\<open>replace\<close> for each item of the table, in the table's
  order, each applied to the result of the one before.
\<close>

definition translate :: "string \<Rightarrow> string" where
  "translate alteration =
     fold (\<lambda>(triplet, amino) alt. replace triplet amino alt) AA_ALPHABET_TRANSLATION alteration"

type_synonym variants = "(string \<times> rat) list"

definition insert_entry :: "variants \<Rightarrow> string \<Rightarrow> rat \<Rightarrow> variants" where
  "insert_entry variants hgvsp vaf =
     (case map_of variants hgvsp of
        None \<Rightarrow> AList.update hgvsp vaf variants
      | Some prev_vaf \<Rightarrow>
          if prev_vaf < vaf then AList.update hgvsp vaf variants else variants)"

definition fmt_entry :: "string \<times> rat \<Rightarrow> string" where
  "fmt_entry = (\<lambda>(hgvsp, vaf). hgvsp @ '':'' @ fmt3 vaf)"

definition fmt_variants :: "variants \<Rightarrow> string" where
  "fmt_variants variants = join '' '' (sort (map fmt_entry variants))"

subsection \<open>The loop over the records of one sample\<close>

record params =
  flirt :: "string \<rightharpoonup> string list"
  mth :: "string \<rightharpoonup> string list"

record variant_record =
  AF :: rat
  ANN :: "string list"

record tiers =
  flirt_mutations :: variants
  mutations_of_interest :: variants
  other_mutations :: variants

definition no_mutations :: tiers where
  "no_mutations = \<lparr>flirt_mutations = [], mutations_of_interest = [], other_mutations = []\<rparr>"

text \<open>\<^verbatim>\<open>d.get(k, {})\<close>, read as the collection that \<^verbatim>\<open>in\<close> searches.\<close>

definition get_or_empty :: "(string \<rightharpoonup> string list) \<Rightarrow> string \<Rightarrow> string list" where
  "get_or_empty d k = (case d k of None \<Rightarrow> [] | Some xs \<Rightarrow> xs)"

text \<open>Lines 225 and 226: the two splits, each unpacked into two names.\<close>

definition parse_hgvsp :: "string \<Rightarrow> py_error + (string \<times> string)" where
  "parse_hgvsp hgvsp =
     (case unpack2 (split1 CHR '':'' hgvsp) of
        Inl e \<Rightarrow> Inl e
      | Inr (enssast_id, alteration) \<Rightarrow>
          (case unpack2 (split1 CHR ''.'' alteration) of
             Inl e \<Rightarrow> Inl e
           | Inr (prefix, alteration') \<Rightarrow> Inr (enssast_id, alteration')))"

text \<open>
  Lines 219 to 237: the body of the inner loop, for one item of \<^verbatim>\<open>ANN\<close>. The three
  fields are read in the order 11, 6, 3; the name \<^verbatim>\<open>enssast_id\<close> is bound twice and
  never read; the pair \<^verbatim>\<open>entry\<close> of line 231 is never read and is left out.
\<close>

definition process_ann :: "params \<Rightarrow> rat \<Rightarrow> tiers \<Rightarrow> string \<Rightarrow> py_error + tiers" where
  "process_ann P vaf st ann_raw =
     (let ann = split_str CHR ''|'' ann_raw in
      case getitem ann 11 of
        Inl e \<Rightarrow> Inl e
      | Inr hgvsp \<Rightarrow>
      (case getitem ann 6 of
        Inl e \<Rightarrow> Inl e
      | Inr enssast_id \<Rightarrow>
      (case getitem ann 3 of
        Inl e \<Rightarrow> Inl e
      | Inr feature \<Rightarrow>
          if hgvsp \<noteq> [] then
            (case parse_hgvsp hgvsp of
               Inl e \<Rightarrow> Inl e
             | Inr (enssast_id', alteration0) \<Rightarrow>
                 let alteration = translate alteration0;
                     hgvsp' = feature @ '':'' @ alteration
                 in if alteration \<in> set (get_or_empty (flirt P) feature)
                    then Inr (st\<lparr>flirt_mutations :=
                                 insert_entry (flirt_mutations st) hgvsp' vaf\<rparr>)
                    else if alteration \<in> set (get_or_empty (mth P) feature)
                    then Inr (st\<lparr>mutations_of_interest :=
                                 insert_entry (mutations_of_interest st) hgvsp' vaf\<rparr>)
                    else Inr (st\<lparr>other_mutations :=
                                 insert_entry (other_mutations st) hgvsp' vaf\<rparr>))
          else Inr st)))"

fun process_anns :: "params \<Rightarrow> rat \<Rightarrow> tiers \<Rightarrow> string list \<Rightarrow> py_error + tiers" where
  "process_anns P vaf st [] = Inr st"
| "process_anns P vaf st (ann # anns) =
     (case process_ann P vaf st ann of
        Inl e \<Rightarrow> Inl e
      | Inr st' \<Rightarrow> process_anns P vaf st' anns)"

fun process_records :: "params \<Rightarrow> tiers \<Rightarrow> variant_record list \<Rightarrow> py_error + tiers" where
  "process_records P st [] = Inr st"
| "process_records P st (r # rs) =
     (case process_anns P (AF r) st (ANN r) of
        Inl e \<Rightarrow> Inl e
      | Inr st' \<Rightarrow> process_records P st' rs)"

subsection \<open>The three columns of a sample\<close>

definition overflow_guard :: "string \<Rightarrow> string" where
  "overflow_guard s = (if 32767 < length s then ''Too many variants to display'' else s)"

record row =
  FLiRT_Mutations :: string
  VOC_Mutations :: string
  Other_Mutations :: string

text \<open>
  Lines 195 to 246 for one sample: the three dictionaries start empty, the records
  are consumed, the three strings are stored, and line 244 rewrites the third one.
\<close>

definition sample_row :: "params \<Rightarrow> variant_record list \<Rightarrow> py_error + row" where
  "sample_row P records =
     (case process_records P no_mutations records of
        Inl e \<Rightarrow> Inl e
      | Inr st \<Rightarrow>
          Inr \<lparr>FLiRT_Mutations = fmt_variants (flirt_mutations st),
               VOC_Mutations = fmt_variants (mutations_of_interest st),
               Other_Mutations = overflow_guard (fmt_variants (other_mutations st))\<rparr>)"

subsection \<open>What one item of ANN contributes\<close>

text \<open>The fields of one item of \<^verbatim>\<open>ANN\<close> (line 219).\<close>

definition ann_fields :: "string \<Rightarrow> string list" where
  "ann_fields ann_raw = split_str CHR ''|'' ann_raw"

text \<open>
  The three dictionaries by name, the dictionary that the tests of lines 232 and 234
  select, and the call of \<^verbatim>\<open>insert_entry\<close> on a dictionary given by its name.
\<close>

datatype tier = Flirt | Voc | Other

definition tier_of :: "params \<Rightarrow> string \<Rightarrow> string \<Rightarrow> tier" where
  "tier_of P feature alteration =
     (if alteration \<in> set (get_or_empty (flirt P) feature) then Flirt
      else if alteration \<in> set (get_or_empty (mth P) feature) then Voc
      else Other)"

definition insert_into :: "tier \<Rightarrow> tiers \<Rightarrow> string \<Rightarrow> rat \<Rightarrow> tiers" where
  "insert_into t st hgvsp vaf =
     (case t of
        Flirt \<Rightarrow> st\<lparr>flirt_mutations := insert_entry (flirt_mutations st) hgvsp vaf\<rparr>
      | Voc \<Rightarrow> st\<lparr>mutations_of_interest := insert_entry (mutations_of_interest st) hgvsp vaf\<rparr>
      | Other \<Rightarrow> st\<lparr>other_mutations := insert_entry (other_mutations st) hgvsp vaf\<rparr>)"

text \<open>
  The dictionary and the key that lines 219 to 237 hand to \<^verbatim>\<open>insert_entry\<close> for one
  item, \<open>None\<close> when the item is skipped by line 223, and the exception when the item
  raises one. Neither depends on the dictionaries or on the allele frequency; that the
  loop body is this call is \<open>process_ann_conv\<close> below.
\<close>

definition ann_entry :: "params \<Rightarrow> string \<Rightarrow> py_error + (tier \<times> string) option" where
  "ann_entry P ann_raw =
     (if length (ann_fields ann_raw) \<le> 11 then Inl IndexError
      else if ann_fields ann_raw ! 11 = [] then Inr None
      else (case parse_hgvsp (ann_fields ann_raw ! 11) of
              Inl e \<Rightarrow> Inl e
            | Inr (enssast_id, alteration0) \<Rightarrow>
                Inr (Some (tier_of P (ann_fields ann_raw ! 3) (translate alteration0),
                           ann_fields ann_raw ! 3 @ '':'' @ translate alteration0))))"

text \<open>
  Two items that agree on every field but field 6, and two lists of records that
  agree on everything but field 6 of their items.
\<close>

definition same_but_enssast_id :: "string \<Rightarrow> string \<Rightarrow> bool" where
  "same_but_enssast_id a b \<longleftrightarrow> (ann_fields a)[6 := []] = (ann_fields b)[6 := []]"

definition differ_in_enssast_id_only :: "variant_record list \<Rightarrow> variant_record list \<Rightarrow> bool" where
  "differ_in_enssast_id_only rs rs' \<longleftrightarrow>
     list_all2 (\<lambda>r r'. AF r = AF r' \<and> list_all2 same_but_enssast_id (ANN r) (ANN r')) rs rs'"

subsection \<open>Reading the result\<close>



text \<open>
  A list of labels in which a label that continues another one continues it with a
  character that sorts after the colon.
\<close>

definition colon_sorts_first :: "string list \<Rightarrow> bool" where
  "colon_sorts_first labels \<longleftrightarrow>
     (\<forall>k\<in>set labels. \<forall>k'\<in>set labels.
        length k < length k' \<and> take (length k) k' = k \<longrightarrow> CHR '':'' < k' ! length k)"

subsection \<open>The translation as the specification words it\<close>

text \<open>Lower-case letters.\<close>

definition lower :: "char \<Rightarrow> bool" where
  "lower c \<longleftrightarrow> CHR ''a'' \<le> c \<and> c \<le> CHR ''z''"

text \<open>The item of a table whose code starts the string, if there is one.\<close>

definition code_at :: "(string \<times> string) list \<Rightarrow> string \<Rightarrow> (string \<times> string) option" where
  "code_at table s =
     find (\<lambda>(triplet, amino). triplet \<noteq> [] \<and> take (length triplet) s = triplet) table"

text \<open>
  The specification of the translator, in its own words: every occurrence of a code
  of the table is replaced with the letter of that code, and every other character
  is left as it is. Occurrences are found in one pass from the left. This definition
  follows the specification, not the script; \<open>translate\<close> above is the script's.
\<close>

function translate_at_once :: "(string \<times> string) list \<Rightarrow> string \<Rightarrow> string" where
  "translate_at_once table s =
     (if s = [] then []
      else (case code_at table s of
              None \<Rightarrow> hd s # translate_at_once table (tl s)
            | Some (triplet, amino) \<Rightarrow>
                amino @ translate_at_once table (drop (length triplet) s)))"
  by pat_completeness auto
termination
proof (relation "measure (\<lambda>(table, s). length s)")
  fix table :: "(string \<times> string) list" and s :: string and x2 x y
  assume "s \<noteq> []" and "code_at table s = Some x2" and "(x, y) = x2"
  then have "x \<noteq> []"
    by (auto simp: code_at_def find_Some_iff)
  with \<open>s \<noteq> []\<close> show "((table, drop (length x) s), table, s) \<in> measure (\<lambda>(table, s). length s)"
    by simp
qed auto

declare translate_at_once.simps [simp del]

text \<open>The codes that stand after a code in a table.\<close>

definition later_codes :: "(string \<times> string) list \<Rightarrow> string \<Rightarrow> string list" where
  "later_codes table triplet = map fst (tl (dropWhile (\<lambda>e. fst e \<noteq> triplet) table))"

text \<open>
  A string in which no occurrence of a code, once replaced with its letter, spells a
  later code of the table together with the two characters that follow it.
\<close>

fun no_code_completed :: "(string \<times> string) list \<Rightarrow> string \<Rightarrow> bool" where
  "no_code_completed table [] = True"
| "no_code_completed table (c # cs) =
     ((case code_at table (c # cs) of
         None \<Rightarrow> True
       | Some (triplet, amino) \<Rightarrow>
           amino @ take 2 (drop (length triplet) (c # cs)) \<notin> set (later_codes table triplet)) \<and>
      no_code_completed table cs)"

text \<open>
  The shape of the table: distinct codes, each an upper-case letter and two lower-case
  letters (here: a character that is not a lower-case letter, then two that are), each
  replaced with one character that is not a lower-case letter.
\<close>

definition wf_table :: "(string \<times> string) list \<Rightarrow> bool" where
  "wf_table table \<longleftrightarrow>
     distinct (map fst table) \<and>
     list_all (\<lambda>(triplet, amino).
         length triplet = 3 \<and> \<not> lower (triplet ! 0) \<and> lower (triplet ! 1) \<and>
         lower (triplet ! 2) \<and> length amino = 1 \<and> \<not> lower (amino ! 0)) table"

section \<open>Properties\<close>

subsection \<open>The loops\<close>

lemma process_ann_conv:
  "process_ann P vaf st a =
     (case ann_entry P a of
        Inl e \<Rightarrow> Inl e
      | Inr None \<Rightarrow> Inr st
      | Inr (Some (t, label)) \<Rightarrow> Inr (insert_into t st label vaf))"
  by (simp add: process_ann_def ann_entry_def ann_fields_def getitem_def Let_def
      tier_of_def insert_into_def split: sum.splits prod.splits)

lemma process_anns_append:
  "process_anns P vaf st (xs @ ys) =
     (case process_anns P vaf st xs of Inl e \<Rightarrow> Inl e | Inr st' \<Rightarrow> process_anns P vaf st' ys)"
  by (induction xs arbitrary: st) (auto split: sum.splits)

lemma process_records_append:
  "process_records P st (xs @ ys) =
     (case process_records P st xs of Inl e \<Rightarrow> Inl e | Inr st' \<Rightarrow> process_records P st' ys)"
  by (induction xs arbitrary: st) (auto split: sum.splits)

lemma parse_hgvsp_no_colon:
  "CHR '':'' \<notin> set h \<Longrightarrow> parse_hgvsp h = Inl ValueError"
  by (simp add: parse_hgvsp_def split1_def)

lemma parse_hgvsp_no_dot:
  "CHR ''.'' \<notin> set (tl (dropWhile (\<lambda>c. c \<noteq> CHR '':'') h)) \<Longrightarrow> parse_hgvsp h = Inl ValueError"
  by (simp add: parse_hgvsp_def split1_def)

lemma parse_hgvsp_ok:
  "CHR '':'' \<in> set h \<Longrightarrow> CHR ''.'' \<in> set (tl (dropWhile (\<lambda>c. c \<noteq> CHR '':'') h)) \<Longrightarrow>
   parse_hgvsp h =
     Inr (takeWhile (\<lambda>c. c \<noteq> CHR '':'') h,
          tl (dropWhile (\<lambda>c. c \<noteq> CHR ''.'') (tl (dropWhile (\<lambda>c. c \<noteq> CHR '':'') h))))"
  by (simp add: parse_hgvsp_def split1_def)

lemma process_anns_fails:
  assumes "a \<in> set anns" and "\<And>st. \<exists>e. process_ann P vaf st a = Inl e"
  shows "\<exists>e. process_anns P vaf st anns = Inl e"
  using assms(1)
proof (induction anns arbitrary: st)
  case Nil
  then show ?case by simp
next
  case (Cons x anns)
  show ?case
  proof (cases "process_ann P vaf st x")
    case (Inl e)
    then show ?thesis by simp
  next
    case (Inr st')
    with assms(2) [of st] have "x \<noteq> a" by auto
    with Cons.prems have "a \<in> set anns" by simp
    from Cons.IH [OF this, of st'] Inr show ?thesis by simp
  qed
qed

lemma process_records_fails:
  assumes "r \<in> set rs" and "a \<in> set (ANN r)"
    and "\<And>vaf st. \<exists>e. process_ann P vaf st a = Inl e"
  shows "\<exists>e. process_records P st rs = Inl e"
  using assms(1)
proof (induction rs arbitrary: st)
  case Nil
  then show ?case by simp
next
  case (Cons x rs)
  show ?case
  proof (cases "process_anns P (AF x) st (ANN x)")
    case (Inl e)
    then show ?thesis by simp
  next
    case (Inr st')
    have "x \<noteq> r"
    proof
      assume "x = r"
      with assms(2) have "a \<in> set (ANN x)" by simp
      from process_anns_fails [OF this assms(3), of "AF x" st] Inr show False by simp
    qed
    with Cons.prems have "r \<in> set rs" by simp
    from Cons.IH [OF this, of st'] Inr show ?thesis by simp
  qed
qed

lemma same_but_enssast_id_entry:
  assumes "same_but_enssast_id a b"
  shows "ann_entry P a = ann_entry P b"
proof -
  let ?x = "ann_fields a" and ?y = "ann_fields b"
  from assms have eq: "?x[6 := []] = ?y[6 := []]"
    by (simp add: same_but_enssast_id_def)
  then have len: "length ?x = length ?y"
    by (metis length_list_update)
  have nth: "?x ! i = ?y ! i" if "i \<noteq> 6" for i
  proof -
    have "?x ! i = (?x[6 := []]) ! i" using that by simp
    also have "\<dots> = (?y[6 := []]) ! i" using eq by simp
    also have "\<dots> = ?y ! i" using that by simp
    finally show ?thesis .
  qed
  have h11: "?x ! 11 = ?y ! 11" and h3: "?x ! 3 = ?y ! 3"
    by (simp_all add: nth)
  show ?thesis
    by (simp only: ann_entry_def len h11 h3)
qed

lemma same_but_enssast_id_anns:
  "list_all2 same_but_enssast_id xs ys \<Longrightarrow> process_anns P vaf st xs = process_anns P vaf st ys"
proof (induction xs ys arbitrary: st rule: list_all2_induct)
  case Nil
  then show ?case by simp
next
  case (Cons x xs y ys)
  from Cons.hyps(1) have "process_ann P vaf st x = process_ann P vaf st y"
    by (simp add: process_ann_conv same_but_enssast_id_entry [of x y])
  with Cons.IH show ?case
    by (simp split: sum.splits)
qed

lemma differ_in_enssast_id_only_records:
  "differ_in_enssast_id_only rs rs' \<Longrightarrow> process_records P st rs = process_records P st rs'"
  unfolding differ_in_enssast_id_only_def
proof (induction rs rs' arbitrary: st rule: list_all2_induct)
  case Nil
  then show ?case by simp
next
  case (Cons r rs r' rs')
  from Cons.hyps(1)
  have "process_anns P (AF r) st (ANN r) = process_anns P (AF r') st (ANN r')"
    using same_but_enssast_id_anns [of "ANN r" "ANN r'"] by simp
  with Cons.IH show ?case
    by (simp split: sum.splits)
qed

subsection \<open>Items without a protein-level effect\<close>

text \<open>
  Claim C7. An item of \<^verbatim>\<open>ANN\<close> whose field 11, the HGVS protein string, is empty is
  skipped: the loop body returns the three dictionaries as they were and raises
  nothing, so the items around it are processed as if it were not there, and the row
  of the sample is the row of the same records without that item.
\<close>

theorem C7_empty_hgvsp_is_skipped:
  assumes "11 < length (ann_fields a)" and "ann_fields a ! 11 = []"
  shows "process_ann P vaf st a = Inr st \<and>
         process_anns P vaf st (xs @ a # ys) = process_anns P vaf st (xs @ ys) \<and>
         sample_row P (rs @ \<lparr>AF = vaf, ANN = xs @ a # ys\<rparr> # rs') =
         sample_row P (rs @ \<lparr>AF = vaf, ANN = xs @ ys\<rparr> # rs')"
proof -
  have skip: "process_ann P v s a = Inr s" for v s
    using assms by (simp add: process_ann_conv ann_entry_def)
  have anns: "process_anns P v s (xs @ a # ys) = process_anns P v s (xs @ ys)" for v s
    by (simp add: process_anns_append skip split: sum.splits)
  have "process_records P s (rs @ \<lparr>AF = vaf, ANN = xs @ a # ys\<rparr> # rs') =
        process_records P s (rs @ \<lparr>AF = vaf, ANN = xs @ ys\<rparr> # rs')" for s
    by (simp add: process_records_append anns split: sum.splits)
  then show ?thesis
    by (simp add: skip anns sample_row_def)
qed

theorem C7_empty_hgvsp_is_skipped_witness:
  "11 < length (ann_fields ''|||S||||||||'') \<and> ann_fields ''|||S||||||||'' ! 11 = [] \<and>
   process_ann \<lparr>flirt = Map.empty, mth = Map.empty\<rparr> (1 / 2) no_mutations ''|||S||||||||'' =
     Inr no_mutations \<and>
   sample_row \<lparr>flirt = Map.empty, mth = Map.empty\<rparr>
     [\<lparr>AF = 1 / 2, ANN = [''|||S||||||||'', ''|||S||||||||t:p.Gly12Ala'']\<rparr>] =
   sample_row \<lparr>flirt = Map.empty, mth = Map.empty\<rparr>
     [\<lparr>AF = 1 / 2, ANN = [''|||S||||||||t:p.Gly12Ala'']\<rparr>]"
proof -
  have h1: "11 < length (ann_fields ''|||S||||||||'')"
    by (simp add: ann_fields_def)
  have h2: "ann_fields ''|||S||||||||'' ! 11 = []"
    by (simp add: ann_fields_def)
  from C7_empty_hgvsp_is_skipped [OF h1 h2, of "\<lparr>flirt = Map.empty, mth = Map.empty\<rparr>" "1 / 2"
      no_mutations "[]" "[''|||S||||||||t:p.Gly12Ala'']" "[]" "[]"] h1 h2
  show ?thesis by simp
qed

subsection \<open>Malformed HGVS strings\<close>

text \<open>
  Claim C8. An item whose HGVS protein string is not empty and has no \<^verbatim>\<open>:\<close>, or has
  no \<^verbatim>\<open>.\<close> after its first \<^verbatim>\<open>:\<close>, makes the loop body raise ValueError (the
  unpacking of a split that gave one part), and no row is produced for a sample whose
  records contain such an item: the run ends with an exception.
\<close>

theorem C8_malformed_hgvsp_raises:
  assumes "11 < length (ann_fields a)" and "ann_fields a ! 11 \<noteq> []"
    and "CHR '':'' \<notin> set (ann_fields a ! 11) \<or>
         CHR ''.'' \<notin> set (tl (dropWhile (\<lambda>c. c \<noteq> CHR '':'') (ann_fields a ! 11)))"
    and "r \<in> set records" and "a \<in> set (ANN r)"
  shows "process_ann P vaf st a = Inl ValueError \<and> (\<exists>e. sample_row P records = Inl e)"
proof -
  from assms(3) have "parse_hgvsp (ann_fields a ! 11) = Inl ValueError"
    using parse_hgvsp_no_colon parse_hgvsp_no_dot by blast
  with assms(1,2) have raises: "process_ann P v s a = Inl ValueError" for v s
    by (simp add: process_ann_conv ann_entry_def)
  then have "\<exists>e. process_ann P v s a = Inl e" for v s
    by simp
  from process_records_fails [OF assms(4,5) this, of no_mutations]
  obtain e where "process_records P no_mutations records = Inl e" by blast
  then have "sample_row P records = Inl e"
    by (simp add: sample_row_def)
  with raises show ?thesis by blast
qed

theorem C8_malformed_hgvsp_raises_witness:
  "process_ann \<lparr>flirt = Map.empty, mth = Map.empty\<rparr> (1 / 2) no_mutations ''|||S||||||||t:Gly12Ala'' =
     Inl ValueError \<and>
   (\<exists>e. sample_row \<lparr>flirt = Map.empty, mth = Map.empty\<rparr>
      [\<lparr>AF = 1 / 2, ANN = [''|||S||||||||t:p.Gly12Ala'', ''|||S||||||||t:Gly12Ala'']\<rparr>] = Inl e)"
proof -
  have f: "ann_fields ''|||S||||||||t:Gly12Ala'' =
           [[], [], [], ''S'', [], [], [], [], [], [], [], ''t:Gly12Ala'']"
    by (simp add: ann_fields_def)
  have h1: "11 < length (ann_fields ''|||S||||||||t:Gly12Ala'')"
    and h2: "ann_fields ''|||S||||||||t:Gly12Ala'' ! 11 \<noteq> []"
    and h3: "CHR '':'' \<notin> set (ann_fields ''|||S||||||||t:Gly12Ala'' ! 11) \<or>
         CHR ''.'' \<notin> set (tl (dropWhile (\<lambda>c. c \<noteq> CHR '':'') (ann_fields ''|||S||||||||t:Gly12Ala'' ! 11)))"
    by (simp_all add: f)
  let ?r = "\<lparr>AF = 1 / 2, ANN = [''|||S||||||||t:p.Gly12Ala'', ''|||S||||||||t:Gly12Ala'']\<rparr>"
  have h4: "?r \<in> set [?r]" and h5: "''|||S||||||||t:Gly12Ala'' \<in> set (ANN ?r)"
    by simp_all
  from C8_malformed_hgvsp_raises [OF h1 h2 h3 h4 h5]
  show ?thesis by simp
qed

subsection \<open>Evaluation of the running examples\<close>

lemma process_ann_parsed:
  assumes "11 < length (ann_fields a)" and "ann_fields a ! 11 \<noteq> []"
    and "parse_hgvsp (ann_fields a ! 11) = Inr (enssast_id, alteration0)"
  shows "process_ann P vaf st a =
           Inr (insert_into (tier_of P (ann_fields a ! 3) (translate alteration0)) st
                  (ann_fields a ! 3 @ '':'' @ translate alteration0) vaf)"
  using assms by (simp add: process_ann_conv ann_entry_def)

lemma fmt3_half: "fmt3 (1 / 2) = ''0.500''"
  by code_simp

lemma translate_Gly12Ala: "translate ''Gly12Ala'' = ''G12A''"
  by code_simp

lemma parse_hgvsp_Gly12Ala: "parse_hgvsp ''t:p.Gly12Ala'' = Inr (''t'', ''Gly12Ala'')"
  by (simp add: parse_hgvsp_def split1_def)

lemma ann_fields_S_Gly12Ala:
  "ann_fields ''|||S||||||||t:p.Gly12Ala'' =
     [[], [], [], ''S'', [], [], [], [], [], [], [], ''t:p.Gly12Ala'']"
  by (simp add: ann_fields_def)

lemma fmt_variants_single: "fmt_variants [(hgvsp, vaf)] = hgvsp @ '':'' @ fmt3 vaf"
  by (simp add: fmt_variants_def fmt_entry_def)

lemma fmt_variants_empty: "fmt_variants [] = []"
  by (simp add: fmt_variants_def)

subsection \<open>Classification and translation\<close>

text \<open>
  Claim C1, as the specification states it, fails: the script translates the
  alteration (lines 227 and 228) before it looks it up (lines 232 and 234). With the
  three-letter form \<^verbatim>\<open>Gly12Ala\<close> in the tier-1 set of feature \<^verbatim>\<open>S\<close>, the item
  \<^verbatim>\<open>t:p.Gly12Ala\<close> of feature \<^verbatim>\<open>S\<close> is not put into the tier-1 dictionary but into
  the third one.
\<close>

theorem C1_counterexample:
  "parse_hgvsp ''t:p.Gly12Ala'' = Inr (''t'', ''Gly12Ala'') \<and>
   ''Gly12Ala'' \<in> set (get_or_empty (flirt \<lparr>flirt = [''S'' \<mapsto> [''Gly12Ala'']], mth = Map.empty\<rparr>) ''S'') \<and>
   sample_row \<lparr>flirt = [''S'' \<mapsto> [''Gly12Ala'']], mth = Map.empty\<rparr>
     [\<lparr>AF = 1 / 2, ANN = [''|||S||||||||t:p.Gly12Ala'']\<rparr>] =
   Inr \<lparr>FLiRT_Mutations = [], VOC_Mutations = [], Other_Mutations = ''S:G12A:0.500''\<rparr>"
proof -
  let ?P = "\<lparr>flirt = [''S'' \<mapsto> [''Gly12Ala'']], mth = Map.empty\<rparr>"
  have "process_ann ?P (1 / 2) no_mutations ''|||S||||||||t:p.Gly12Ala'' =
          Inr \<lparr>flirt_mutations = [], mutations_of_interest = [],
               other_mutations = [(''S:G12A'', 1 / 2)]\<rparr>"
    by (simp add: process_ann_conv ann_entry_def ann_fields_S_Gly12Ala parse_hgvsp_Gly12Ala
        translate_Gly12Ala tier_of_def get_or_empty_def insert_into_def insert_entry_def
        no_mutations_def)
  then show ?thesis
    by (simp add: parse_hgvsp_Gly12Ala get_or_empty_def sample_row_def fmt_variants_single
        fmt_variants_empty fmt3_half overflow_guard_def)
qed

text \<open>
  Claim C1, amended. For an item with a non-empty HGVS protein string that parses,
  membership in the tier-1 set and then in the tier-2 set of the item's feature is
  decided on the alteration after the three-letter codes have been replaced, and that
  same translated alteration is the one the label is built from.
\<close>

theorem C1_membership_on_translated_alteration:
  assumes "11 < length (ann_fields a)" and "ann_fields a ! 11 \<noteq> []"
    and "parse_hgvsp (ann_fields a ! 11) = Inr (enssast_id, alteration0)"
  shows "process_ann P vaf st a =
     Inr (let feature = ann_fields a ! 3;
              alteration = translate alteration0;
              label = feature @ '':'' @ alteration
          in if alteration \<in> set (get_or_empty (flirt P) feature)
             then st\<lparr>flirt_mutations := insert_entry (flirt_mutations st) label vaf\<rparr>
             else if alteration \<in> set (get_or_empty (mth P) feature)
             then st\<lparr>mutations_of_interest := insert_entry (mutations_of_interest st) label vaf\<rparr>
             else st\<lparr>other_mutations := insert_entry (other_mutations st) label vaf\<rparr>)"
  using process_ann_parsed [OF assms, of P vaf st]
  by (simp add: tier_of_def insert_into_def Let_def)

theorem C1_membership_on_translated_alteration_witness:
  "process_ann \<lparr>flirt = [''S'' \<mapsto> [''G12A'']], mth = Map.empty\<rparr> (1 / 2) no_mutations
     ''|||S||||||||t:p.Gly12Ala'' =
   Inr \<lparr>flirt_mutations = [(''S:G12A'', 1 / 2)], mutations_of_interest = [],
        other_mutations = []\<rparr>"
proof -
  let ?a = "''|||S||||||||t:p.Gly12Ala''"
  have h1: "11 < length (ann_fields ?a)" and h2: "ann_fields ?a ! 11 \<noteq> []"
    and h3: "parse_hgvsp (ann_fields ?a ! 11) = Inr (''t'', ''Gly12Ala'')"
    by (simp_all add: ann_fields_S_Gly12Ala parse_hgvsp_Gly12Ala)
  from C1_membership_on_translated_alteration [OF h1 h2 h3,
      of "\<lparr>flirt = [''S'' \<mapsto> [''G12A'']], mth = Map.empty\<rparr>" "1 / 2" no_mutations]
  show ?thesis
    by (simp add: ann_fields_S_Gly12Ala translate_Gly12Ala get_or_empty_def insert_entry_def
        no_mutations_def)
qed

subsection \<open>The overflow guard\<close>

text \<open>
  Claim C3. The string of the third dictionary, and only that one, is replaced by
  \<^verbatim>\<open>Too many variants to display\<close> exactly when it is longer than 32767 characters;
  a string of 32767 characters stays, and the strings of the tier-1 and tier-2
  dictionaries are stored as formatted whatever their length.
\<close>

theorem C3_overflow_guard_on_other_only:
  "(32767 < length s \<longrightarrow> overflow_guard s = ''Too many variants to display'') \<and>
   (length s \<le> 32767 \<longrightarrow> overflow_guard s = s) \<and>
   (process_records P no_mutations records = Inr st \<longrightarrow>
      sample_row P records =
        Inr \<lparr>FLiRT_Mutations = fmt_variants (flirt_mutations st),
             VOC_Mutations = fmt_variants (mutations_of_interest st),
             Other_Mutations =
               (if 32767 < length (fmt_variants (other_mutations st))
                then ''Too many variants to display''
                else fmt_variants (other_mutations st))\<rparr>)"
  by (simp add: overflow_guard_def sample_row_def)

theorem C3_overflow_guard_on_other_only_witness:
  "overflow_guard (replicate 32768 CHR ''a'') = ''Too many variants to display'' \<and>
   overflow_guard (replicate 32767 CHR ''a'') = replicate 32767 CHR ''a'' \<and>
   sample_row \<lparr>flirt = [''S'' \<mapsto> [''G12A'']], mth = Map.empty\<rparr>
     [\<lparr>AF = 1 / 2, ANN = [''|||S||||||||t:p.Gly12Ala'']\<rparr>] =
   Inr \<lparr>FLiRT_Mutations = ''S:G12A:0.500'', VOC_Mutations = [], Other_Mutations = []\<rparr>"
proof -
  let ?P = "\<lparr>flirt = [''S'' \<mapsto> [''G12A'']], mth = Map.empty\<rparr>"
  let ?rs = "[\<lparr>AF = 1 / 2, ANN = [''|||S||||||||t:p.Gly12Ala'']\<rparr>]"
  let ?st = "\<lparr>flirt_mutations = [(''S:G12A'', 1 / 2)], mutations_of_interest = [],
        other_mutations = []\<rparr>"
  have "process_ann ?P (1 / 2) no_mutations ''|||S||||||||t:p.Gly12Ala'' = Inr ?st"
    by (simp add: process_ann_conv ann_entry_def ann_fields_S_Gly12Ala parse_hgvsp_Gly12Ala
        translate_Gly12Ala tier_of_def get_or_empty_def insert_into_def insert_entry_def
        no_mutations_def)
  then have run: "process_records ?P no_mutations ?rs = Inr ?st"
    by simp
  from C3_overflow_guard_on_other_only [of "replicate 32768 CHR ''a''" ?P ?rs ?st]
    C3_overflow_guard_on_other_only [of "replicate 32767 CHR ''a''" ?P ?rs ?st] run
  show ?thesis
    by (simp add: fmt_variants_single fmt_variants_empty fmt3_half)
qed

subsection \<open>Features unknown to the reference mappings\<close>

text \<open>
  Claim C9. A feature that is not a key of a reference mapping is looked up as the
  empty collection, without an exception; an item whose feature is a key of neither
  mapping is put into the third dictionary.
\<close>

theorem C9_unknown_feature_is_other:
  assumes "d feature = None"
    and "flirt P feature = None" and "mth P feature = None"
    and "11 < length (ann_fields a)" and "ann_fields a ! 3 = feature"
    and "ann_fields a ! 11 \<noteq> []"
    and "parse_hgvsp (ann_fields a ! 11) = Inr (enssast_id, alteration0)"
  shows "get_or_empty d feature = [] \<and> alteration \<notin> set (get_or_empty d feature) \<and>
         tier_of P feature alteration = Other \<and>
         process_ann P vaf st a =
           Inr (st\<lparr>other_mutations :=
                  insert_entry (other_mutations st) (feature @ '':'' @ translate alteration0) vaf\<rparr>)"
proof -
  have empty: "get_or_empty m feature = []" if "m feature = None" for m
    using that by (simp add: get_or_empty_def)
  from empty [of "flirt P", OF assms(2)] empty [of "mth P", OF assms(3)]
  have other: "tier_of P feature alt = Other" for alt
    by (simp add: tier_of_def)
  from process_ann_parsed [OF assms(4,6,7), of P vaf st] assms(5)
  have "process_ann P vaf st a =
          Inr (insert_into Other st (feature @ '':'' @ translate alteration0) vaf)"
    by (simp add: other)
  with empty [of d, OF assms(1)] other show ?thesis
    by (simp add: insert_into_def)
qed

theorem C9_unknown_feature_is_other_witness:
  "get_or_empty (flirt \<lparr>flirt = [''S'' \<mapsto> [''G12A'']], mth = [''N'' \<mapsto> [''G12A'']]\<rparr>) ''M'' = [] \<and>
   process_ann \<lparr>flirt = [''S'' \<mapsto> [''G12A'']], mth = [''N'' \<mapsto> [''G12A'']]\<rparr> (1 / 2) no_mutations
     ''|||M||||||||t:p.Gly12Ala'' =
   Inr \<lparr>flirt_mutations = [], mutations_of_interest = [],
        other_mutations = [(''M:G12A'', 1 / 2)]\<rparr>"
proof -
  let ?P = "\<lparr>flirt = [''S'' \<mapsto> [''G12A'']], mth = [''N'' \<mapsto> [''G12A'']]\<rparr>"
  let ?a = "''|||M||||||||t:p.Gly12Ala''"
  have f: "ann_fields ?a = [[], [], [], ''M'', [], [], [], [], [], [], [], ''t:p.Gly12Ala'']"
    by (simp add: ann_fields_def)
  have h1: "flirt ?P ''M'' = None" and h2: "mth ?P ''M'' = None"
    by simp_all
  have h3: "11 < length (ann_fields ?a)" and h4: "ann_fields ?a ! 3 = ''M''"
    and h5: "ann_fields ?a ! 11 \<noteq> []"
    by (simp_all add: f)
  have h6: "parse_hgvsp (ann_fields ?a ! 11) = Inr (''t'', ''Gly12Ala'')"
    by (simp add: f parse_hgvsp_Gly12Ala)
  from C9_unknown_feature_is_other [where d = "flirt ?P" and feature = "''M''" and P = ?P
      and alteration = "[]" and vaf = "1 / 2" and st = no_mutations, OF h1 h1 h2 h3 h4 h5 h6]
  show ?thesis
    by (simp add: translate_Gly12Ala no_mutations_def insert_entry_def)
qed

subsection \<open>The transcript identifier\<close>

text \<open>
  Claim C10. Two lists of records that differ only in field 6 of their items give the
  same result: the same three strings, or the same exception. Field 6 is read and
  then overwritten by the prefix of the HGVS string, and neither value is used.
\<close>

theorem C10_enssast_id_is_not_used:
  assumes "differ_in_enssast_id_only records records'"
  shows "sample_row P records = sample_row P records'"
  using differ_in_enssast_id_only_records [OF assms, of P no_mutations]
  by (simp add: sample_row_def)

theorem C10_enssast_id_is_not_used_witness:
  "differ_in_enssast_id_only
     [\<lparr>AF = 1 / 2, ANN = [''|||S|||t1|||||t:p.Gly12Ala'']\<rparr>]
     [\<lparr>AF = 1 / 2, ANN = [''|||S|||other|||||t:p.Gly12Ala'']\<rparr>] \<and>
   sample_row \<lparr>flirt = Map.empty, mth = Map.empty\<rparr>
     [\<lparr>AF = 1 / 2, ANN = [''|||S|||t1|||||t:p.Gly12Ala'']\<rparr>] =
   sample_row \<lparr>flirt = Map.empty, mth = Map.empty\<rparr>
     [\<lparr>AF = 1 / 2, ANN = [''|||S|||other|||||t:p.Gly12Ala'']\<rparr>]"
proof -
  have h: "differ_in_enssast_id_only
     [\<lparr>AF = 1 / 2, ANN = [''|||S|||t1|||||t:p.Gly12Ala'']\<rparr>]
     [\<lparr>AF = 1 / 2, ANN = [''|||S|||other|||||t:p.Gly12Ala'']\<rparr>]"
    by (simp add: differ_in_enssast_id_only_def same_but_enssast_id_def ann_fields_def)
  from C10_enssast_id_is_not_used [OF h] h show ?thesis
    by simp
qed

subsection \<open>What the dictionaries hold after a run\<close>
















lemma translate_Met1Leu: "translate ''Met1Leu'' = ''M1L''"
  by code_simp





subsection \<open>Duplicate labels\<close>



subsection \<open>The three tiers\<close>




subsection \<open>The order of the formatted entries\<close>

lemma entry_less:
  fixes k k' :: string
  assumes "k < k'"
    and "length k < length k' \<and> take (length k) k' = k \<longrightarrow> CHR '':'' < k' ! length k"
  shows "k @ CHR '':'' # x < k' @ CHR '':'' # y"
  using assms
proof (induction k arbitrary: k')
  case Nil
  then obtain c rest where "k' = c # rest"
    by (cases k') auto
  with Nil.prems(2) show ?case by simp
next
  case (Cons a k)
  from Cons.prems(1) obtain b rest where k': "k' = b # rest"
    by (cases k') auto
  show ?case
  proof (cases "a = b")
    case True
    with Cons.prems k' have "k < rest"
      and "length k < length rest \<and> take (length k) rest = k \<longrightarrow> CHR '':'' < rest ! length k"
      by auto
    from Cons.IH [OF this] True k' show ?thesis by simp
  next
    case False
    with Cons.prems(1) k' show ?thesis by simp
  qed
qed

lemma fmt_entry_mono:
  assumes "colon_sorts_first (map fst variants)"
    and "e \<in> set variants" and "e' \<in> set variants" and "fst e < fst e'"
  shows "fmt_entry e \<le> fmt_entry e'"
proof -
  from assms(1,2,3) have
    "length (fst e) < length (fst e') \<and> take (length (fst e)) (fst e') = fst e \<longrightarrow>
       CHR '':'' < fst e' ! length (fst e)"
    unfolding colon_sorts_first_def by simp
  from entry_less [OF assms(4) this, of "fmt3 (snd e)" "fmt3 (snd e')"]
  show ?thesis
    by (simp add: fmt_entry_def case_prod_unfold less_imp_le)
qed

lemma sort_fmt_entries:
  assumes "distinct (map fst variants)" and "colon_sorts_first (map fst variants)"
  shows "sort (map fmt_entry variants) = map fmt_entry (sort_key fst variants)"
proof -
  let ?by_label = "sort_key fst variants"
  have "sorted (map fst ?by_label)" and "distinct (map fst ?by_label)"
    using assms(1) by (simp_all add: distinct_map)
  then have "sorted_wrt (<) (map fst ?by_label)"
    by (simp add: strict_sorted_iff)
  then have "sorted_wrt (\<lambda>e e'. fst e < fst e') ?by_label"
    by (simp add: sorted_wrt_map)
  then have "sorted_wrt (\<lambda>e e'. fmt_entry e \<le> fmt_entry e') ?by_label"
  proof (rule sorted_wrt_mono_rel [rotated])
    fix e e'
    assume "e \<in> set ?by_label" and "e' \<in> set ?by_label" and "fst e < fst e'"
    then show "fmt_entry e \<le> fmt_entry e'"
      using fmt_entry_mono [OF assms(2)] by simp
  qed
  then have "sorted (map fmt_entry ?by_label)"
    by (simp add: sorted_wrt_map)
  moreover have "mset (map fmt_entry ?by_label) = mset (map fmt_entry variants)"
    by simp
  ultimately show ?thesis
    by (simp add: properties_for_sort)
qed

lemma digit_char_digit: "digit_char d \<in> set ''0123456789''"
proof -
  have "d mod 10 < length ''0123456789''" by simp
  then show ?thesis
    unfolding digit_char_def by (rule nth_mem)
qed

lemma fmt3_shape:
  "\<exists>whole d1 d2 d3. fmt3 vaf = whole @ [CHR ''.'', d1, d2, d3] \<and>
     {d1, d2, d3} \<subseteq> set ''0123456789''"
proof -
  let ?n = "nat (round_half_even (\<bar>vaf\<bar> * 1000))"
  have "fmt3 vaf = ((if vaf < 0 then ''-'' else []) @ show_nat (?n div 1000)) @
      [CHR ''.'', digit_char (?n div 100), digit_char (?n div 10), digit_char ?n]"
    by (simp add: fmt3_def Let_def)
  moreover have "{digit_char (?n div 100), digit_char (?n div 10), digit_char ?n}
      \<subseteq> set ''0123456789''"
    using digit_char_digit by blast
  ultimately show ?thesis by blast
qed

lemma fmt_variants_example:
  "fmt_variants [(''ORF1a:G12A'', 1 / 2), (''ORF1a:M1L'', 1 / 4)] =
     ''ORF1a:G12A:0.500 ORF1a:M1L:0.250''"
  by code_simp

text \<open>
  Claim C2, as the specification states it, fails: \<^verbatim>\<open>fmt_variants\<close> sorts the
  formatted entries, not the labels. The label \<^verbatim>\<open>S:Q12fs\<close> is smaller than the label
  \<^verbatim>\<open>S:Q12fs*5\<close>, and its entry comes second, since \<^verbatim>\<open>*\<close> sorts before the colon
  that ends the shorter label.
\<close>

theorem C2_counterexample:
  "''S:Q12fs'' < ''S:Q12fs*5'' \<and>
   fmt_variants [(''S:Q12fs'', 1 / 2), (''S:Q12fs*5'', 1 / 4)] =
     ''S:Q12fs*5:0.250 S:Q12fs:0.500''"
  by code_simp

text \<open>
  Claim C2, amended. The formatter returns the entries, each the label, a colon and
  the allele frequency with three decimals, in ascending order of the whole entry and
  joined by one space; the empty mapping gives the empty string. The order is the
  order of the labels whenever no label of the mapping continues another label with a
  character that sorts before or as the colon, as in the example of the
  specification.
\<close>

theorem C2_fmt_variants_sorted_entries:
  "(\<exists>ys. fmt_variants variants = join '' '' ys \<and> sorted ys \<and>
          mset ys = mset (map fmt_entry variants)) \<and>
   (\<exists>whole d1 d2 d3.
      fmt_entry (label, vaf) = label @ '':'' @ whole @ [CHR ''.'', d1, d2, d3] \<and>
      {d1, d2, d3} \<subseteq> set ''0123456789'') \<and>
   fmt_variants [] = [] \<and>
   (distinct (map fst variants) \<and> colon_sorts_first (map fst variants) \<longrightarrow>
      fmt_variants variants = join '' '' (map fmt_entry (sort_key fst variants))) \<and>
   fmt_variants [(''ORF1a:G12A'', 1 / 2), (''ORF1a:M1L'', 1 / 4)] =
     ''ORF1a:G12A:0.500 ORF1a:M1L:0.250''"
proof -
  have "fmt_variants variants = join '' '' (sort (map fmt_entry variants)) \<and>
      sorted (sort (map fmt_entry variants)) \<and>
      mset (sort (map fmt_entry variants)) = mset (map fmt_entry variants)"
    by (simp add: fmt_variants_def)
  then have sorted_entries: "\<exists>ys. fmt_variants variants = join '' '' ys \<and> sorted ys \<and>
      mset ys = mset (map fmt_entry variants)"
    by blast
  from fmt3_shape [of vaf] have shape: "\<exists>whole d1 d2 d3.
      fmt_entry (label, vaf) = label @ '':'' @ whole @ [CHR ''.'', d1, d2, d3] \<and>
      {d1, d2, d3} \<subseteq> set ''0123456789''"
    by (auto simp: fmt_entry_def)
  have by_label: "fmt_variants variants = join '' '' (map fmt_entry (sort_key fst variants))"
    if "distinct (map fst variants)" and "colon_sorts_first (map fst variants)"
    using sort_fmt_entries [OF that] by (simp add: fmt_variants_def)
  from sorted_entries shape by_label fmt_variants_example show ?thesis
    by (simp add: fmt_variants_empty)
qed

theorem C2_fmt_variants_sorted_entries_witness:
  "distinct (map fst [(''ORF1a:M1L'', 1 / 4 :: rat), (''ORF1a:G12A'', 1 / 2)]) \<and>
   colon_sorts_first (map fst [(''ORF1a:M1L'', 1 / 4 :: rat), (''ORF1a:G12A'', 1 / 2)]) \<and>
   fmt_variants [(''ORF1a:M1L'', 1 / 4), (''ORF1a:G12A'', 1 / 2)] =
     ''ORF1a:G12A:0.500 ORF1a:M1L:0.250''"
proof -
  let ?v = "[(''ORF1a:M1L'', 1 / 4 :: rat), (''ORF1a:G12A'', 1 / 2)]"
  have d: "distinct (map fst ?v)"
    by simp
  have c: "colon_sorts_first (map fst ?v)"
    by (simp add: colon_sorts_first_def)
  have r: "join '' '' (map fmt_entry (sort_key fst ?v)) = ''ORF1a:G12A:0.500 ORF1a:M1L:0.250''"
    by code_simp
  from C2_fmt_variants_sorted_entries [of ?v] d c r show ?thesis
    by simp
qed

subsection \<open>One replacement after the other, and all at once\<close>

lemma replace_Nil: "old \<noteq> [] \<Longrightarrow> replace old new [] = []"
  by (simp add: replace.simps)

lemma replace_match: "old \<noteq> [] \<Longrightarrow> replace old new (old @ s) = new @ replace old new s"
  by (subst replace.simps) simp

lemma replace_nomatch:
  "old \<noteq> [] \<Longrightarrow> take (length old) (c # s) \<noteq> old \<Longrightarrow>
   replace old new (c # s) = c # replace old new s"
  by (subst replace.simps) simp

lemma code_at_SomeD:
  "code_at table s = Some (triplet, amino) \<Longrightarrow>
   (triplet, amino) \<in> set table \<and> triplet \<noteq> [] \<and> take (length triplet) s = triplet"
  by (induction table) (auto simp: code_at_def split: if_splits)

lemma code_at_NoneD:
  "code_at table s = None \<Longrightarrow> (triplet, amino) \<in> set table \<Longrightarrow> triplet \<noteq> [] \<Longrightarrow>
   take (length triplet) s \<noteq> triplet"
  by (auto simp: code_at_def find_None_iff)

lemma code_at_append:
  "code_at (xs @ ys) s = (case code_at xs s of None \<Rightarrow> code_at ys s | Some e \<Rightarrow> Some e)"
  by (induction xs) (auto simp: code_at_def)

lemma translate_at_once_Nil: "translate_at_once table [] = []"
  by (simp add: translate_at_once.simps)

lemma translate_at_once_None:
  "code_at table (c # cs) = None \<Longrightarrow>
   translate_at_once table (c # cs) = c # translate_at_once table cs"
  by (subst translate_at_once.simps) simp

lemma translate_at_once_Some:
  assumes "code_at table s = Some (triplet, amino)"
  shows "translate_at_once table s = amino @ translate_at_once table (drop (length triplet) s)"
proof -
  from code_at_SomeD [OF assms] have "s \<noteq> []" by auto
  with assms show ?thesis
    by (subst translate_at_once.simps) simp
qed

lemma translate_at_once_no_table: "translate_at_once [] s = s"
proof (induction s)
  case Nil
  show ?case by (simp add: translate_at_once_Nil)
next
  case (Cons c cs)
  have "code_at [] (c # cs) = None" by (simp add: code_at_def)
  with Cons show ?case by (simp add: translate_at_once_None)
qed

lemma wf_tableD:
  "wf_table table \<Longrightarrow> (triplet, amino) \<in> set table \<Longrightarrow>
   length triplet = 3 \<and> \<not> lower (triplet ! 0) \<and> lower (triplet ! 1) \<and> lower (triplet ! 2) \<and>
   length amino = 1 \<and> \<not> lower (amino ! 0)"
  by (auto simp: wf_table_def list_all_iff)

lemma wf_table_append: "wf_table (xs @ ys) \<Longrightarrow> wf_table xs \<and> wf_table ys"
  by (auto simp: wf_table_def)

lemma code_at_lower:
  assumes "wf_table table" and "lower c"
  shows "code_at table (c # cs) = None"
proof (cases "code_at table (c # cs)")
  case None
  then show ?thesis .
next
  case (Some e)
  obtain triplet amino where e: "e = (triplet, amino)" by (cases e)
  from code_at_SomeD [OF Some [unfolded e]] have
    mem: "(triplet, amino) \<in> set table" and pre: "take (length triplet) (c # cs) = triplet"
    by simp_all
  from wf_tableD [OF assms(1) mem] have "length triplet = 3" and "\<not> lower (triplet ! 0)"
    by simp_all
  moreover from pre \<open>length triplet = 3\<close> have "triplet = c # take 2 cs"
    by (simp add: numeral_3_eq_3 numeral_2_eq_2)
  then have "triplet ! 0 = c"
    by (metis nth_Cons_0)
  ultimately show ?thesis using assms(2) by simp
qed

lemma code_at_unique:
  assumes "wf_table table" and "(triplet, amino) \<in> set table"
    and "take (length triplet) s = triplet"
  shows "code_at table s = Some (triplet, amino)"
proof (cases "code_at table s")
  case None
  from wf_tableD [OF assms(1,2)] have "triplet \<noteq> []" by auto
  from code_at_NoneD [OF None assms(2) this] assms(3) show ?thesis by simp
next
  case (Some e)
  obtain triplet' amino' where e: "e = (triplet', amino')" by (cases e)
  from code_at_SomeD [OF Some [unfolded e]] have
    mem: "(triplet', amino') \<in> set table" and pre: "take (length triplet') s = triplet'"
    by simp_all
  from wf_tableD [OF assms(1,2)] wf_tableD [OF assms(1) mem]
  have len: "length triplet' = length triplet" by simp
  have "triplet' = take (length triplet') s"
    by (rule pre [symmetric])
  also have "\<dots> = triplet"
    unfolding len by (rule assms(3))
  finally have "triplet' = triplet" .
  moreover from assms(1) have "distinct (map fst table)"
    by (simp add: wf_table_def)
  ultimately have "amino' = amino"
    using assms(2) mem by (blast dest: eq_key_imp_eq_value)
  with Some e \<open>triplet' = triplet\<close> show ?thesis by simp
qed

lemma translate_at_once_lower_head:
  assumes "wf_table table" and "translate_at_once table t = l # u" and "lower l"
  shows "\<exists>t'. t = l # t' \<and> u = translate_at_once table t'"
proof (cases t)
  case Nil
  with assms(2) show ?thesis by (simp add: translate_at_once_Nil)
next
  case (Cons c t')
  show ?thesis
  proof (cases "code_at table t")
    case None
    with Cons assms(2) show ?thesis by (simp add: translate_at_once_None)
  next
    case (Some e)
    obtain triplet amino where e: "e = (triplet, amino)" by (cases e)
    from code_at_SomeD [OF Some [unfolded e]] have "(triplet, amino) \<in> set table" by simp
    from wf_tableD [OF assms(1) this] have "length amino = 1" and "\<not> lower (amino ! 0)"
      by simp_all
    then obtain x where "amino = [x]" and "\<not> lower x"
      by (cases amino) auto
    with translate_at_once_Some [OF Some [unfolded e]] assms(2,3) show ?thesis by simp
  qed
qed

lemma translate_at_once_lower_take2:
  assumes "wf_table table" and "take 2 (translate_at_once table t) = [l1, l2]"
    and "lower l1" and "lower l2"
  shows "take 2 t = [l1, l2]"
proof -
  from assms(2) obtain u where u: "translate_at_once table t = l1 # l2 # u"
    by (cases "translate_at_once table t"; cases "tl (translate_at_once table t)")
       (simp_all add: numeral_2_eq_2)
  from translate_at_once_lower_head [OF assms(1) u assms(3)] obtain t' where
    t': "t = l1 # t'" "l2 # u = translate_at_once table t'" by blast
  from translate_at_once_lower_head [OF assms(1) t'(2) [symmetric] assms(4)] obtain t'' where
    "t' = l2 # t''" by blast
  with t'(1) show ?thesis by (simp add: numeral_2_eq_2)
qed

lemma no_code_completed_drop:
  "no_code_completed table s \<Longrightarrow> no_code_completed table (drop k s)"
proof (induction k arbitrary: s)
  case 0
  then show ?case by simp
next
  case (Suc k)
  then show ?case by (cases s) simp_all
qed

lemma later_codes_mem:
  assumes "distinct (map fst (before @ (triplet, amino) # after))"
    and "(triplet', amino') \<in> set before"
  shows "triplet \<in> set (later_codes (before @ (triplet, amino) # after) triplet')"
  using assms
proof (induction before)
  case Nil
  then show ?case by simp
next
  case (Cons e before)
  show ?case
  proof (cases "fst e = triplet'")
    case True
    then show ?thesis by (simp add: later_codes_def)
  next
    case False
    with Cons.prems(2) have "(triplet', amino') \<in> set before" by auto
    moreover from Cons.prems(1) have "distinct (map fst (before @ (triplet, amino) # after))"
      by simp
    ultimately have "triplet \<in> set (later_codes (before @ (triplet, amino) # after) triplet')"
      by (rule Cons.IH [rotated])
    with False show ?thesis by (simp add: later_codes_def)
  qed
qed

lemma translate_at_once_copies_code:
  assumes "wf_table table" and "length triplet = 3"
    and "lower (triplet ! 1)" and "lower (triplet ! 2)"
    and "code_at table (triplet @ rest) = None"
  shows "translate_at_once table (triplet @ rest) = triplet @ translate_at_once table rest"
proof -
  from assms(2) obtain a b c where t: "triplet = [a, b, c]"
    by (cases triplet; cases "tl triplet"; cases "tl (tl triplet)") auto
  with assms(3,4) have "lower b" and "lower c" by simp_all
  then have "code_at table (b # c # rest) = None" and "code_at table (c # rest) = None"
    using code_at_lower [OF assms(1)] by blast+
  with assms(5) t show ?thesis
    by (simp add: translate_at_once_None)
qed

lemma replace_after_at_once:
  assumes wf: "wf_table (before @ (triplet, amino) # after)"
    and safe: "no_code_completed (before @ (triplet, amino) # after) s"
  shows "replace triplet amino (translate_at_once before s) =
         translate_at_once (before @ [(triplet, amino)]) s"
  using safe
proof (induction s rule: length_induct)
  case (1 s)
  let ?T = "before @ (triplet, amino) # after"
  let ?B = "before @ [(triplet, amino)]"
  from wf have wfb: "wf_table before"
    using wf_table_append by blast
  from wf have dist: "distinct (map fst ?T)"
    by (simp add: wf_table_def)
  have "(triplet, amino) \<in> set ?T" by simp
  from wf_tableD [OF wf this] have len: "length triplet = 3"
    and lo1: "lower (triplet ! 1)" and lo2: "lower (triplet ! 2)" by simp_all
  then have ne: "triplet \<noteq> []" by auto
  have IH: "replace triplet amino (translate_at_once before t) = translate_at_once ?B t"
    if "length t < length s" and "no_code_completed ?T t" for t
    using "1.IH" that by blast
  have single: "code_at [(triplet, amino)] t =
      (if take (length triplet) t = triplet then Some (triplet, amino) else None)" for t
    using ne by (simp add: code_at_def)
  have nomatch: "take (length triplet) (x # translate_at_once before t) \<noteq> triplet"
    if "x # take 2 t \<noteq> triplet" for x t
  proof
    assume "take (length triplet) (x # translate_at_once before t) = triplet"
    then have eq: "triplet = x # take 2 (translate_at_once before t)"
      by (simp add: len numeral_3_eq_3 numeral_2_eq_2)
    with len obtain b c where bc: "take 2 (translate_at_once before t) = [b, c]"
      by (cases "take 2 (translate_at_once before t)";
          cases "tl (take 2 (translate_at_once before t))") auto
    with eq lo1 lo2 have "lower b" and "lower c" by simp_all
    from translate_at_once_lower_take2 [OF wfb bc this] eq bc have "x # take 2 t = triplet"
      by simp
    with that show False by simp
  qed
  show ?case
  proof (cases s)
    case Nil
    then show ?thesis
      by (simp add: replace_Nil [OF ne] translate_at_once_Nil)
  next
    case (Cons c cs)
    show ?thesis
    proof (cases "code_at before s")
      case (Some e)
      obtain triplet' amino' where e: "e = (triplet', amino')" by (cases e)
      note at = Some [unfolded e]
      from code_at_SomeD [OF at] have mem': "(triplet', amino') \<in> set before" by simp
      from wf_tableD [OF wfb mem'] have len': "length triplet' = 3" and "length amino' = 1"
        by simp_all
      then obtain x where am: "amino' = [x]"
        by (cases amino') auto
      have atT: "code_at ?T s = Some (triplet', amino')"
        and atB: "code_at ?B s = Some (triplet', amino')"
        using at by (simp_all add: code_at_append)
      from "1.prems" Cons atT
      have "amino' @ take 2 (drop (length triplet') s) \<notin> set (later_codes ?T triplet')"
        by simp
      moreover have "triplet \<in> set (later_codes ?T triplet')"
        by (rule later_codes_mem [OF dist mem'])
      ultimately have "x # take 2 (drop 3 s) \<noteq> triplet"
        using am len' by auto
      from replace_nomatch [OF ne nomatch [OF this]]
      have "replace triplet amino (x # translate_at_once before (drop 3 s)) =
            x # replace triplet amino (translate_at_once before (drop 3 s))" .
      moreover have "length (drop 3 s) < length s"
        using Cons by simp
      moreover have "no_code_completed ?T (drop 3 s)"
        by (rule no_code_completed_drop [OF "1.prems"])
      ultimately show ?thesis
        using translate_at_once_Some [OF at] translate_at_once_Some [OF atB] IH am len'
        by simp
    next
      case None
      show ?thesis
      proof (cases "take (length triplet) s = triplet")
        case True
        then have s: "s = triplet @ drop 3 s"
          using len by (metis append_take_drop_id)
        from None s have "code_at before (triplet @ drop 3 s) = None" by simp
        from translate_at_once_copies_code [OF wfb len lo1 lo2 this] s
        have copy: "translate_at_once before s = triplet @ translate_at_once before (drop 3 s)"
          by simp
        have atB: "code_at ?B s = Some (triplet, amino)"
          using None True by (simp add: code_at_append single)
        have "length (drop 3 s) < length s"
          using Cons by simp
        moreover have "no_code_completed ?T (drop 3 s)"
          by (rule no_code_completed_drop [OF "1.prems"])
        ultimately show ?thesis
          using translate_at_once_Some [OF atB] IH copy len
          by (simp add: replace_match [OF ne])
      next
        case False
        with None have atB: "code_at ?B (c # cs) = None"
          using Cons by (simp add: code_at_append single)
        from None Cons have atb: "code_at before (c # cs) = None" by simp
        from False Cons len have "c # take 2 cs \<noteq> triplet"
          by (auto simp: numeral_3_eq_3 numeral_2_eq_2)
        from replace_nomatch [OF ne nomatch [OF this]]
        have "replace triplet amino (c # translate_at_once before cs) =
              c # replace triplet amino (translate_at_once before cs)" .
        moreover from "1.prems" Cons have "no_code_completed ?T cs" by simp
        ultimately show ?thesis
          using Cons IH [of cs]
          by (simp add: translate_at_once_None [OF atB] translate_at_once_None [OF atb])
      qed
    qed
  qed
qed

lemma fold_replace_at_once:
  assumes "wf_table (before @ todo)" and "no_code_completed (before @ todo) s"
  shows "fold (\<lambda>(triplet, amino) alt. replace triplet amino alt) todo
           (translate_at_once before s) =
         translate_at_once (before @ todo) s"
  using assms
proof (induction todo arbitrary: before)
  case Nil
  show ?case by simp
next
  case (Cons e todo)
  obtain triplet amino where e: "e = (triplet, amino)" by (cases e)
  from Cons.prems e have
    "replace triplet amino (translate_at_once before s) =
     translate_at_once (before @ [(triplet, amino)]) s"
    by (simp add: replace_after_at_once)
  moreover from Cons.prems e have "wf_table ((before @ [(triplet, amino)]) @ todo)"
    and "no_code_completed ((before @ [(triplet, amino)]) @ todo) s"
    by simp_all
  ultimately show ?case
    using Cons.IH [of "before @ [(triplet, amino)]"] e by simp
qed

lemma wf_AA_ALPHABET_TRANSLATION: "wf_table AA_ALPHABET_TRANSLATION"
  by code_simp

lemma translate_at_once_Glyln: "translate_at_once AA_ALPHABET_TRANSLATION ''Glyln'' = ''Gln''"
  by code_simp

lemma translate_Glyln: "translate ''Glyln'' = ''Q''"
  by code_simp

text \<open>
  Claim C6, as the specification states it, fails in two places. The script replaces
  one code after the other, in the order of the table, on the result of the
  replacement before: in \<^verbatim>\<open>Glyln\<close> the only code is \<^verbatim>\<open>Gly\<close>, its letter and the two
  characters after it spell \<^verbatim>\<open>Gln\<close>, a later code, and the result is \<^verbatim>\<open>Q\<close>, so the
  characters \<^verbatim>\<open>ln\<close> are not left unchanged. And the HGVS string \<^verbatim>\<open>p.Gly12Ala\<close>,
  which has no colon, raises ValueError at line 225 and yields no alteration.
\<close>

theorem C6_counterexample:
  "translate ''Glyln'' = ''Q'' \<and>
   translate_at_once AA_ALPHABET_TRANSLATION ''Glyln'' = ''Gln'' \<and>
   parse_hgvsp ''p.Gly12Ala'' = Inl ValueError"
  by (simp add: translate_Glyln translate_at_once_Glyln parse_hgvsp_def split1_def)

text \<open>
  Claim C6, amended. On an alteration in which no occurrence of a code, replaced with
  its letter, spells a later code of the table with the two characters after it, the
  translator replaces every occurrence of each of the 20 codes with its letter and
  leaves every other character unchanged. The HGVS strings \<^verbatim>\<open>t:p.Gly12Ala\<close> and
  \<^verbatim>\<open>t:p.Met1Leu\<close> have the alterations \<^verbatim>\<open>Gly12Ala\<close> and \<^verbatim>\<open>Met1Leu\<close>, which are
  translated to \<^verbatim>\<open>G12A\<close> and \<^verbatim>\<open>M1L\<close>.
\<close>

theorem C6_translate_replaces_codes:
  assumes "no_code_completed AA_ALPHABET_TRANSLATION alteration"
  shows "translate alteration = translate_at_once AA_ALPHABET_TRANSLATION alteration \<and>
         length AA_ALPHABET_TRANSLATION = 20 \<and>
         parse_hgvsp ''t:p.Gly12Ala'' = Inr (''t'', ''Gly12Ala'') \<and>
         translate ''Gly12Ala'' = ''G12A'' \<and>
         parse_hgvsp ''t:p.Met1Leu'' = Inr (''t'', ''Met1Leu'') \<and>
         translate ''Met1Leu'' = ''M1L''"
proof -
  from fold_replace_at_once [of "[]" AA_ALPHABET_TRANSLATION alteration] assms
  have "translate alteration = translate_at_once AA_ALPHABET_TRANSLATION alteration"
    by (simp add: translate_def translate_at_once_no_table wf_AA_ALPHABET_TRANSLATION)
  moreover have "parse_hgvsp ''t:p.Met1Leu'' = Inr (''t'', ''Met1Leu'')"
    by (simp add: parse_hgvsp_def split1_def)
  ultimately show ?thesis
    by (simp add: AA_ALPHABET_TRANSLATION_def parse_hgvsp_Gly12Ala translate_Gly12Ala
        translate_Met1Leu)
qed

theorem C6_translate_replaces_codes_witness:
  "no_code_completed AA_ALPHABET_TRANSLATION ''Arg97ProfsTer23'' \<and>
   translate_at_once AA_ALPHABET_TRANSLATION ''Arg97ProfsTer23'' = ''R97PfsTer23'' \<and>
   translate ''Arg97ProfsTer23'' = ''R97PfsTer23''"
proof -
  have safe: "no_code_completed AA_ALPHABET_TRANSLATION ''Arg97ProfsTer23''"
    by code_simp
  have at_once: "translate_at_once AA_ALPHABET_TRANSLATION ''Arg97ProfsTer23'' = ''R97PfsTer23''"
    by code_simp
  from C6_translate_replaces_codes [OF safe] safe at_once show ?thesis
    by simp
qed

end
